theory Spec2Isabelle
  imports Main "HOL-Library.Word"
begin

section \<open>Strings and errors of the scripts\<close>

text \<open>
  A JavaScript string is a sequence of 16-bit code units: \<open>length\<close> counts code units
  and \<open>substring\<close> cuts between them. \<open>js\<close> writes an ASCII literal of the scripts.
\<close>

type_synonym jsstring = "16 word list"

definition js :: "string \<Rightarrow> jsstring" where
  "js cs = map of_char cs"

text \<open>
  \<open>str.substring(0, e)\<close>: the end index is clamped to \<open>[0, length str]\<close>, so a
  negative end gives the empty string and an end past the length gives the whole string.
\<close>

definition substring0 :: "jsstring \<Rightarrow> int \<Rightarrow> jsstring" where
  "substring0 str e = take (nat e) str"

text \<open>
  The only exception of the modelled code is the TypeError of reading a property of
  \<open>undefined\<close> or \<open>null\<close> (an array read out of range, a missing element).
\<close>

datatype error = TypeError

section \<open>The auto-typing status log\<close>

text \<open>
  The module variables \<open>messageIndex\<close>, \<open>charIndex\<close>, \<open>isDeleting\<close> and the text of the
  status-log element. \<open>charIndex\<close> is a JavaScript number that the code increments and
  decrements by one, so it is an integer here (a number is exact up to \<open>2^53\<close>).
\<close>

record tw_state =
  messageIndex :: nat
  charIndex :: int
  isDeleting :: bool
  statusLog_textContent :: jsstring

text \<open>
  The state before the first tick: \<open>messageIndex = 0\<close>, \<open>charIndex = 0\<close>,
  \<open>isDeleting = false\<close>; the text of the element is what the host page holds.
\<close>

definition initial :: "jsstring \<Rightarrow> tw_state" where
  "initial t = \<lparr>messageIndex = 0, charIndex = 0, isDeleting = False, statusLog_textContent = t\<rparr>"

text \<open>
  One call of \<open>typeStatus\<close> in Rubaisha's Birthday/script.js (lines 85-104). The result
  is the new state and the delay in milliseconds given to \<open>setTimeout\<close>. When
  \<open>logMessages[messageIndex]\<close> is \<open>undefined\<close>, the call of \<open>substring\<close> throws and
  nothing is scheduled.
\<close>

definition typeStatus_rubaisha :: "jsstring list \<Rightarrow> tw_state \<Rightarrow> error + tw_state \<times> nat" where
  "typeStatus_rubaisha logMessages s =
     (if messageIndex s < length logMessages then
        let currentMessage = logMessages ! messageIndex s in
        if isDeleting s then
          let s1 = s\<lparr>statusLog_textContent := substring0 currentMessage (charIndex s - 1)\<rparr>;
              s2 = s1\<lparr>charIndex := charIndex s1 - 1\<rparr>;
              s3 = (if charIndex s2 = 0
                    then s2\<lparr>isDeleting := False,
                            messageIndex := (messageIndex s2 + 1) mod length logMessages\<rparr>
                    else s2)
          in Inr (s3, if isDeleting s3 then 50 else 100)
        else
          let s1 = s\<lparr>statusLog_textContent := substring0 currentMessage (charIndex s + 1)\<rparr>;
              s2 = s1\<lparr>charIndex := charIndex s1 + 1\<rparr>
          in if charIndex s2 = int (length currentMessage)
             then Inr (s2\<lparr>isDeleting := True\<rparr>, 2000)
             else Inr (s2, if isDeleting s2 then 50 else 100)
      else Inl TypeError)"

text \<open>
  One call of \<open>typeStatus\<close> in Hisham's Birthday/script.js (lines 79-89): the same
  function with \<open>substring(0, charIndex--)\<close> and \<open>substring(0, charIndex++)\<close>, which
  pass the old value of \<open>charIndex\<close> to \<open>substring\<close> and change it afterwards.
\<close>

definition typeStatus_hisham :: "jsstring list \<Rightarrow> tw_state \<Rightarrow> error + tw_state \<times> nat" where
  "typeStatus_hisham logMessages s =
     (if messageIndex s < length logMessages then
        let currentMessage = logMessages ! messageIndex s in
        if isDeleting s then
          let s1 = s\<lparr>statusLog_textContent := substring0 currentMessage (charIndex s),
                     charIndex := charIndex s - 1\<rparr>;
              s2 = (if charIndex s1 = 0
                    then s1\<lparr>isDeleting := False,
                            messageIndex := (messageIndex s1 + 1) mod length logMessages\<rparr>
                    else s1)
          in Inr (s2, if isDeleting s2 then 50 else 100)
        else
          let s1 = s\<lparr>statusLog_textContent := substring0 currentMessage (charIndex s),
                     charIndex := charIndex s + 1\<rparr>
          in if charIndex s1 = int (length currentMessage)
             then Inr (s1\<lparr>isDeleting := True\<rparr>, 2000)
             else Inr (s1, if isDeleting s1 then 50 else 100)
      else Inl TypeError)"

text \<open>
  \<open>ticks step n\<close> runs \<open>n\<close> ticks of the driver \<open>step\<close>, each one scheduled by the tick
  before it. A tick that throws schedules nothing, so the run ends with its error.
\<close>

fun ticks :: "(jsstring list \<Rightarrow> tw_state \<Rightarrow> error + tw_state \<times> nat) \<Rightarrow> nat \<Rightarrow>
    jsstring list \<Rightarrow> tw_state \<Rightarrow> error + tw_state" where
  "ticks step 0 logMessages s = Inr s"
| "ticks step (Suc n) logMessages s =
     (case step logMessages s of
        Inl e \<Rightarrow> Inl e
      | Inr (s', delay) \<Rightarrow> ticks step n logMessages s')"

text \<open>
  The number of type-then-delete cycles completed by the first \<open>n\<close> ticks: a cycle is
  complete on the tick that leaves the deleting mode.
\<close>

fun cycles_completed :: "(jsstring list \<Rightarrow> tw_state \<Rightarrow> error + tw_state \<times> nat) \<Rightarrow> nat \<Rightarrow>
    jsstring list \<Rightarrow> tw_state \<Rightarrow> nat" where
  "cycles_completed step 0 logMessages s = 0"
| "cycles_completed step (Suc n) logMessages s =
     (case step logMessages s of
        Inl e \<Rightarrow> 0
      | Inr (s', delay) \<Rightarrow>
          (if isDeleting s \<and> \<not> isDeleting s' then 1 else 0)
            + cycles_completed step n logMessages s')"

text \<open>
  The number of ticks of \<open>k\<close> cycles from the initial state: the message at
  \<open>j mod length logMessages\<close> is typed and deleted in twice its length.
\<close>

fun cycle_ticks :: "jsstring list \<Rightarrow> nat \<Rightarrow> nat" where
  "cycle_ticks logMessages 0 = 0"
| "cycle_ticks logMessages (Suc k) =
     cycle_ticks logMessages k + 2 * length (logMessages ! (k mod length logMessages))"

text \<open>
  The invariant of the specification: \<open>charIndex\<close> lies between 0 and the length of the
  selected message, and the element shows the prefix of that length.
\<close>

definition status_invariant :: "jsstring list \<Rightarrow> tw_state \<Rightarrow> bool" where
  "status_invariant logMessages s \<longleftrightarrow>
     0 \<le> charIndex s \<and>
     charIndex s \<le> int (length (logMessages ! messageIndex s)) \<and>
     statusLog_textContent s = substring0 (logMessages ! messageIndex s) (charIndex s)"

definition charIndex_in_range :: "jsstring list \<Rightarrow> tw_state \<Rightarrow> bool" where
  "charIndex_in_range logMessages s \<longleftrightarrow>
     0 \<le> charIndex s \<and> charIndex s \<le> int (length (logMessages ! messageIndex s))"

text \<open>
  The state in which the driver is between two ticks when every message is non-empty:
  the cursor selects a message, a typing driver has not yet reached the end of the
  message and a deleting driver has at least one character left.
\<close>

definition driver_ok :: "jsstring list \<Rightarrow> tw_state \<Rightarrow> bool" where
  "driver_ok logMessages s \<longleftrightarrow>
     messageIndex s < length logMessages \<and>
     (if isDeleting s
      then 1 \<le> charIndex s \<and> charIndex s \<le> int (length (logMessages ! messageIndex s))
      else 0 \<le> charIndex s \<and> charIndex s < int (length (logMessages ! messageIndex s)))"

section \<open>The scene player\<close>

text \<open>
  An entry of the array \<open>scenes\<close> (Rubaisha's Birthday/script.js, lines 106-125). The
  field \<open>next\<close> is an index into the array or \<open>null\<close>.
\<close>

record scene =
  scene_image :: jsstring
  scene_dialogue :: jsstring
  scene_audio :: jsstring
  scene_next :: "nat option"

definition scenes :: "scene list" where
  "scenes =
     [\<lparr>scene_image = js ''images/bedroom.jpg'',
       scene_dialogue = js ''The room reeks of despair. A razor sits on the dresser.'',
       scene_audio = js ''whisper'',
       scene_next = Some 1\<rparr>,
      \<lparr>scene_image = js ''images/bathroom.jpg'',
       scene_dialogue = js ''The bathtub is tinged with red. The mirror cracks silently.'',
       scene_audio = js ''door'',
       scene_next = Some 2\<rparr>,
      \<lparr>scene_image = js ''images/window.jpg'',
       scene_dialogue = js ''You see the note. Blood trails on the glass.'',
       scene_audio = js ''scream'',
       scene_next = None\<rparr>]"

text \<open>
  The line appended at the last scene: two line feeds, \<open>Ruby\<close>, the code unit U+2019
  and the rest of the sentence (line 149).
\<close>

definition epilogue :: jsstring where
  "epilogue = [0x0A, 0x0A] @ js ''Ruby'' @ [0x2019] @ js ''s ghost appears behind you...''"

text \<open>
  The host page is not part of the scripts. What \<open>showScene\<close> needs of it is, for an
  id, whether \<open>document.getElementById\<close> finds an element that can be played and,
  if so, how the promise returned by its \<open>play()\<close> settles: fulfilled, or rejected with
  a reason (given by its text).
\<close>

datatype playback = Fulfilled | Rejected jsstring

type_synonym page = "jsstring \<Rightarrow> playback option"

text \<open>
  The variable \<open>currentScene\<close> and what the script changes in the page: the source of
  the image, the text of the dialogue box, the display style and the click handler of
  the button \<open>next-room-btn\<close>, and the display styles of the opening screen and of the
  game container. The handler set by \<open>showScene\<close> is a closure over \<open>scene.next\<close>;
  it is kept as that index, and \<open>None\<close> is the absent handler. \<open>played\<close> lists the ids on
  which \<open>play()\<close> was called, oldest first. \<open>unhandled_rejections\<close> lists the reasons
  of rejected promises that have no handler, and \<open>console_log\<close> the lines the script
  has written with \<open>console.log\<close>.
\<close>

record sp_state =
  currentScene :: nat
  sceneImage_src :: jsstring
  dialogueBox_textContent :: jsstring
  nextBtn_display :: jsstring
  nextBtn_onclick :: "nat option"
  openingScreen_display :: jsstring
  gameContainer_display :: jsstring
  played :: "jsstring list"
  unhandled_rejections :: "jsstring list"
  console_log :: "jsstring list"

text \<open>
  \<open>showScene(index)\<close> (lines 133-151). An exception leaves the assignments made before
  it in place, so an error carries the state at the throw: \<open>scenes[index]\<close> out of range
  throws at \<open>scene.image\<close>, before any change; a missing sound element throws at
  \<open>sound.play()\<close>, after the image and the dialogue were set. The promise returned by
  \<open>play()\<close> is dropped: no handler is attached to it.
\<close>

definition showScene :: "scene list \<Rightarrow> page \<Rightarrow> nat \<Rightarrow> sp_state \<Rightarrow> (error \<times> sp_state) + sp_state" where
  "showScene scs page index s =
     (if index < length scs then
        let scene = scs ! index;
            s1 = s\<lparr>sceneImage_src := scene_image scene\<rparr>;
            s2 = s1\<lparr>dialogueBox_textContent := scene_dialogue scene\<rparr>
        in case page (scene_audio scene) of
             None \<Rightarrow> Inl (TypeError, s2)
           | Some outcome \<Rightarrow>
               let s3 = s2\<lparr>played := played s2 @ [scene_audio scene],
                          unhandled_rejections :=
                            (case outcome of
                               Fulfilled \<Rightarrow> unhandled_rejections s2
                             | Rejected reason \<Rightarrow> unhandled_rejections s2 @ [reason])\<rparr>
               in if scene_next scene \<noteq> None
                  then Inr (s3\<lparr>nextBtn_display := js ''block'',
                               nextBtn_onclick := scene_next scene\<rparr>)
                  else
                    let s4 = s3\<lparr>nextBtn_display := js ''none''\<rparr>
                    in Inr (s4\<lparr>dialogueBox_textContent := dialogueBox_textContent s4 @ epilogue\<rparr>)
      else Inl (TypeError, s))"

text \<open>
  A click on \<open>next-room-btn\<close> runs the handler that \<open>showScene\<close> stored (lines 143-146):
  \<open>currentScene = scene.next; showScene(currentScene)\<close>. Without a handler the click
  does nothing.
\<close>

definition nextBtn_click :: "scene list \<Rightarrow> page \<Rightarrow> sp_state \<Rightarrow> (error \<times> sp_state) + sp_state" where
  "nextBtn_click scs page s =
     (case nextBtn_onclick s of
        None \<Rightarrow> Inr s
      | Some n \<Rightarrow> showScene scs page n (s\<lparr>currentScene := n\<rparr>))"

text \<open>The click handler of \<open>start-btn\<close> (lines 156-160).\<close>

definition start_click :: "scene list \<Rightarrow> page \<Rightarrow> sp_state \<Rightarrow> (error \<times> sp_state) + sp_state" where
  "start_click scs page s =
     (let s1 = s\<lparr>openingScreen_display := js ''none''\<rparr>;
          s2 = s1\<lparr>gameContainer_display := js ''block''\<rparr>
      in showScene scs page (currentScene s2) s2)"

text \<open>The state a handler leaves behind, whether it returned or threw.\<close>

fun state_after :: "(error \<times> sp_state) + sp_state \<Rightarrow> sp_state" where
  "state_after (Inl (e, s)) = s"
| "state_after (Inr s) = s"

text \<open>
  \<open>continues k\<close> activates the button \<open>k\<close> times, and \<open>play_from_start k\<close> does so after
  the start signal. The run is followed up to the first exception.
\<close>

fun continues :: "scene list \<Rightarrow> page \<Rightarrow> nat \<Rightarrow> sp_state \<Rightarrow> (error \<times> sp_state) + sp_state" where
  "continues scs page 0 s = Inr s"
| "continues scs page (Suc k) s =
     (case nextBtn_click scs page s of
        Inl e \<Rightarrow> Inl e
      | Inr s' \<Rightarrow> continues scs page k s')"

definition play_from_start :: "scene list \<Rightarrow> page \<Rightarrow> nat \<Rightarrow> sp_state \<Rightarrow> (error \<times> sp_state) + sp_state" where
  "play_from_start scs page k s =
     (case start_click scs page s of
        Inl e \<Rightarrow> Inl e
      | Inr s' \<Rightarrow> continues scs page k s')"

text \<open>
  The player when the page has loaded: \<open>currentScene = 0\<close>, no handler on the button,
  the game container hidden by \<open>window.onload\<close> (lines 153-155), nothing played. The
  texts and styles that the page itself gives are taken as empty.
\<close>

definition player_loaded :: sp_state where
  "player_loaded =
     \<lparr>currentScene = 0, sceneImage_src = [], dialogueBox_textContent = [],
      nextBtn_display = [], nextBtn_onclick = None, openingScreen_display = [],
      gameContainer_display = js ''none'', played = [], unhandled_rejections = [],
      console_log = []\<rparr>"

text \<open>
  The well-formed chain of the specification: following \<open>next\<close> from scene \<open>i\<close> stays
  inside the array and ends at a scene whose \<open>next\<close> is absent; \<open>p\<close> lists the scenes
  on the way, so its length is the length of the chain.
\<close>

inductive chain :: "scene list \<Rightarrow> nat \<Rightarrow> nat list \<Rightarrow> bool" for scs :: "scene list" where
  terminal: "i < length scs \<Longrightarrow> scene_next (scs ! i) = None \<Longrightarrow> chain scs i [i]"
| link: "i < length scs \<Longrightarrow> scene_next (scs ! i) = Some j \<Longrightarrow> chain scs j p \<Longrightarrow>
     chain scs i (i # p)"

text \<open>Every scene of the chain names a sound element that the host page has.\<close>

definition sounds_present :: "scene list \<Rightarrow> page \<Rightarrow> nat list \<Rightarrow> bool" where
  "sounds_present scs page p \<longleftrightarrow> (\<forall>i \<in> set p. page (scene_audio (scs ! i)) \<noteq> None)"

section \<open>The music player of Hisham's page\<close>

text \<open>
  The click handler of \<open>play-pause-btn\<close> (Hisham's Birthday/script.js, lines 108-116).
  It reads \<open>song.paused\<close> from the media element and sets the text of the button; the
  promise of \<open>song.play()\<close> has a \<open>catch\<close> handler that writes the reason to the
  console, so a rejection is handled. The handler runs after the click handler has
  returned; the state is the one after both.
\<close>

record mp_state =
  playBtn_textContent :: jsstring
  mp_console_log :: "jsstring list"
  mp_unhandled_rejections :: "jsstring list"

definition playBtn_click :: "bool \<Rightarrow> playback \<Rightarrow> mp_state \<Rightarrow> mp_state" where
  "playBtn_click song_paused outcome s =
     (if song_paused then
        let s1 = (case outcome of
                    Fulfilled \<Rightarrow> s
                  | Rejected reason \<Rightarrow>
                      s\<lparr>mp_console_log := mp_console_log s @ [js ''Audio play failed: '' @ reason]\<rparr>)
        in s1\<lparr>playBtn_textContent := js ''Pause Song''\<rparr>
      else s\<lparr>playBtn_textContent := js ''Play Song''\<rparr>)"

section \<open>Properties of the status log\<close>

lemma mod_index_nonempty:
  assumes "\<forall>m \<in> set logMessages. m \<noteq> []" and "logMessages \<noteq> []"
  shows "0 < length (logMessages ! ((i + 1) mod length logMessages))"
proof -
  have "(i + 1) mod length logMessages < length logMessages"
    using assms(2) by simp
  then have "logMessages ! ((i + 1) mod length logMessages) \<in> set logMessages"
    by (rule nth_mem)
  with assms(1) show ?thesis by auto
qed

lemma rubaisha_step_ok:
  assumes ok: "driver_ok logMessages s" and ne: "\<forall>m \<in> set logMessages. m \<noteq> []"
  shows "\<exists>s' d. typeStatus_rubaisha logMessages s = Inr (s', d) \<and>
           driver_ok logMessages s' \<and> status_invariant logMessages s'"
proof -
  from ok have lt: "messageIndex s < length logMessages"
    by (simp add: driver_ok_def)
  then have nonempty: "logMessages \<noteq> []" by auto
  note nxt = mod_index_nonempty [OF ne nonempty, of "messageIndex s"]
  from nonempty have wrap: "(messageIndex s + 1) mod length logMessages < length logMessages"
    by simp
  show ?thesis
  proof (cases "isDeleting s")
    case True
    with ok lt nxt wrap show ?thesis
      by (auto simp: typeStatus_rubaisha_def driver_ok_def status_invariant_def
          substring0_def Let_def)
  next
    case False
    with ok lt show ?thesis
      by (auto simp: typeStatus_rubaisha_def driver_ok_def status_invariant_def
          substring0_def Let_def nat_add_distrib)
  qed
qed

lemma hisham_step_ok:
  assumes ok: "driver_ok logMessages s" and ne: "\<forall>m \<in> set logMessages. m \<noteq> []"
  shows "\<exists>s' d. typeStatus_hisham logMessages s = Inr (s', d) \<and>
           driver_ok logMessages s' \<and> charIndex_in_range logMessages s'"
proof -
  from ok have lt: "messageIndex s < length logMessages"
    by (simp add: driver_ok_def)
  then have nonempty: "logMessages \<noteq> []" by auto
  note nxt = mod_index_nonempty [OF ne nonempty, of "messageIndex s"]
  from nonempty have wrap: "(messageIndex s + 1) mod length logMessages < length logMessages"
    by simp
  show ?thesis
  proof (cases "isDeleting s")
    case True
    with ok lt nxt wrap show ?thesis
      by (auto simp: typeStatus_hisham_def driver_ok_def charIndex_in_range_def Let_def)
  next
    case False
    with ok lt show ?thesis
      by (auto simp: typeStatus_hisham_def driver_ok_def charIndex_in_range_def Let_def)
  qed
qed

lemma initial_ok:
  assumes "logMessages \<noteq> []" and "\<forall>m \<in> set logMessages. m \<noteq> []"
  shows "driver_ok logMessages (initial t)"
proof -
  from assms(1) have "logMessages ! 0 \<in> set logMessages" by simp
  with assms(2) have "logMessages ! 0 \<noteq> []" by blast
  with assms(1) show ?thesis by (simp add: driver_ok_def initial_def)
qed

lemma rubaisha_ticks_ok:
  assumes "\<forall>m \<in> set logMessages. m \<noteq> []"
  shows "driver_ok logMessages s \<Longrightarrow>
    \<exists>s'. ticks typeStatus_rubaisha (Suc n) logMessages s = Inr s' \<and>
      driver_ok logMessages s' \<and> status_invariant logMessages s'"
proof (induction n arbitrary: s)
  case 0
  from rubaisha_step_ok [OF 0 assms] show ?case by auto
next
  case (Suc n)
  from rubaisha_step_ok [OF Suc.prems assms] obtain s1 d
    where step: "typeStatus_rubaisha logMessages s = Inr (s1, d)" and ok1: "driver_ok logMessages s1"
    by blast
  from Suc.IH [OF ok1] step show ?case by simp
qed

lemma hisham_ticks_ok:
  assumes "\<forall>m \<in> set logMessages. m \<noteq> []"
  shows "driver_ok logMessages s \<Longrightarrow>
    \<exists>s'. ticks typeStatus_hisham (Suc n) logMessages s = Inr s' \<and>
      driver_ok logMessages s' \<and> charIndex_in_range logMessages s'"
proof (induction n arbitrary: s)
  case 0
  from hisham_step_ok [OF 0 assms] show ?case by auto
next
  case (Suc n)
  from hisham_step_ok [OF Suc.prems assms] obtain s1 d
    where step: "typeStatus_hisham logMessages s = Inr (s1, d)" and ok1: "driver_ok logMessages s1"
    by blast
  from Suc.IH [OF ok1] step show ?case by simp
qed

text \<open>
  C1, as amended. When the queue is non-empty and every message in it is a non-empty
  string, then after every tick (the first included) the driver of Rubaisha's page has
  \<open>0 \<le> charIndex \<le> length currentMessage\<close> and shows the prefix of the selected
  message of length \<open>charIndex\<close>, and the driver of Hisham's page has
  \<open>0 \<le> charIndex \<le> length currentMessage\<close>. Neither driver throws.
\<close>

theorem typewriter_invariant:
  assumes "logMessages \<noteq> []" and "\<forall>m \<in> set logMessages. m \<noteq> []"
  shows "(\<exists>s. ticks typeStatus_rubaisha (Suc n) logMessages (initial t) = Inr s \<and>
            status_invariant logMessages s) \<and>
         (\<exists>s. ticks typeStatus_hisham (Suc n) logMessages (initial t) = Inr s \<and>
            charIndex_in_range logMessages s)"
  using rubaisha_ticks_ok [OF assms(2) initial_ok [OF assms]]
    hisham_ticks_ok [OF assms(2) initial_ok [OF assms]]
  by blast

text \<open>The invariant on the queue \<open>["ab"]\<close> after three ticks.\<close>

theorem typewriter_invariant_witness:
  "[js ''ab''] \<noteq> [] \<and> js ''ab'' \<noteq> [] \<and>
   (\<exists>s. ticks typeStatus_rubaisha (Suc 2) [js ''ab''] (initial []) = Inr s \<and>
        status_invariant [js ''ab''] s) \<and>
   (\<exists>s. ticks typeStatus_hisham (Suc 2) [js ''ab''] (initial []) = Inr s \<and>
        charIndex_in_range [js ''ab''] s)"
  using typewriter_invariant [of "[js ''ab'']" 2 "[]"] by (simp add: js_def)

text \<open>
  C1 as stated fails. On the non-empty queue \<open>[""]\<close> the first tick of Rubaisha's
  driver sets \<open>charIndex\<close> to 1, above the length 0 of the message. On the queue
  \<open>["ab"]\<close> the first tick of Hisham's driver sets \<open>charIndex\<close> to 1 and shows the
  empty text, not the prefix of length 1.
\<close>

theorem typewriter_invariant_counterexample:
  "[[]] \<noteq> ([] :: jsstring list) \<and>
   ticks typeStatus_rubaisha 1 [[]] (initial []) =
     Inr \<lparr>messageIndex = 0, charIndex = 1, isDeleting = False, statusLog_textContent = []\<rparr> \<and>
   \<not> status_invariant [[]]
     \<lparr>messageIndex = 0, charIndex = 1, isDeleting = False, statusLog_textContent = []\<rparr> \<and>
   ticks typeStatus_hisham 1 [js ''ab''] (initial []) =
     Inr \<lparr>messageIndex = 0, charIndex = 1, isDeleting = False, statusLog_textContent = []\<rparr> \<and>
   \<not> status_invariant [js ''ab'']
     \<lparr>messageIndex = 0, charIndex = 1, isDeleting = False, statusLog_textContent = []\<rparr>"
  by (simp add: typeStatus_rubaisha_def typeStatus_hisham_def initial_def status_invariant_def
      substring0_def js_def)

lemma ticks_add:
  "ticks step (a + b) logMessages s =
     (case ticks step a logMessages s of Inl e \<Rightarrow> Inl e | Inr s' \<Rightarrow> ticks step b logMessages s')"
  by (induction a arbitrary: s) (auto split: sum.splits prod.splits)

lemma cycles_completed_add:
  "ticks step a logMessages s = Inr s' \<Longrightarrow>
   cycles_completed step (a + b) logMessages s =
     cycles_completed step a logMessages s + cycles_completed step b logMessages s'"
  by (induction a arbitrary: s) (auto split: sum.splits prod.splits)

lemma rubaisha_type_more:
  assumes "i < length logMessages" and "Suc c \<noteq> length (logMessages ! i)"
  shows "typeStatus_rubaisha logMessages
      \<lparr>messageIndex = i, charIndex = int c, isDeleting = False, statusLog_textContent = t\<rparr> =
    Inr (\<lparr>messageIndex = i, charIndex = int (Suc c), isDeleting = False,
          statusLog_textContent = take (Suc c) (logMessages ! i)\<rparr>, 100)"
proof -
  from assms(2) have "1 + int c \<noteq> int (length (logMessages ! i))" by linarith
  with assms(1) show ?thesis
    by (simp add: typeStatus_rubaisha_def substring0_def Let_def nat_add_distrib add.commute)
qed

lemma rubaisha_type_last:
  assumes "i < length logMessages" and "Suc c = length (logMessages ! i)"
  shows "typeStatus_rubaisha logMessages
      \<lparr>messageIndex = i, charIndex = int c, isDeleting = False, statusLog_textContent = t\<rparr> =
    Inr (\<lparr>messageIndex = i, charIndex = int (Suc c), isDeleting = True,
          statusLog_textContent = logMessages ! i\<rparr>, 2000)"
proof -
  from assms(2) have "1 + int c = int (length (logMessages ! i))" by linarith
  with assms show ?thesis
    by (simp add: typeStatus_rubaisha_def substring0_def Let_def nat_add_distrib add.commute)
qed

lemma rubaisha_delete_more:
  assumes "i < length logMessages" and "0 < c"
  shows "typeStatus_rubaisha logMessages
      \<lparr>messageIndex = i, charIndex = 1 + int c, isDeleting = True, statusLog_textContent = t\<rparr> =
    Inr (\<lparr>messageIndex = i, charIndex = int c, isDeleting = True,
          statusLog_textContent = take c (logMessages ! i)\<rparr>, 50)"
  using assms by (simp add: typeStatus_rubaisha_def substring0_def Let_def)

lemma rubaisha_delete_last:
  assumes "i < length logMessages"
  shows "typeStatus_rubaisha logMessages
      \<lparr>messageIndex = i, charIndex = 1, isDeleting = True, statusLog_textContent = t\<rparr> =
    Inr (\<lparr>messageIndex = (i + 1) mod length logMessages, charIndex = 0, isDeleting = False,
          statusLog_textContent = []\<rparr>, 100)"
  using assms by (simp add: typeStatus_rubaisha_def substring0_def Let_def)

lemma rubaisha_typing_phase:
  assumes i: "i < length logMessages"
  shows "c + j = length (logMessages ! i) \<Longrightarrow> 0 < j \<Longrightarrow>
    ticks typeStatus_rubaisha j logMessages
      \<lparr>messageIndex = i, charIndex = int c, isDeleting = False, statusLog_textContent = t\<rparr> =
    Inr \<lparr>messageIndex = i, charIndex = int (length (logMessages ! i)), isDeleting = True,
         statusLog_textContent = logMessages ! i\<rparr> \<and>
    cycles_completed typeStatus_rubaisha j logMessages
      \<lparr>messageIndex = i, charIndex = int c, isDeleting = False, statusLog_textContent = t\<rparr> = 0"
proof (induction j arbitrary: c t)
  case 0
  then show ?case by simp
next
  case (Suc j)
  show ?case
  proof (cases "j = 0")
    case True
    with Suc.prems have last: "Suc c = length (logMessages ! i)" by simp
    show ?thesis
      unfolding True
      by (simp add: rubaisha_type_last [OF i last] last [symmetric])
  next
    case False
    with Suc.prems have more: "Suc c \<noteq> length (logMessages ! i)"
      and rest: "Suc c + j = length (logMessages ! i)" and pos: "0 < j" by simp_all
    note IH = Suc.IH [OF rest pos, of "take (Suc c) (logMessages ! i)"]
    from IH show ?thesis
      by (simp add: rubaisha_type_more [OF i more])
  qed
qed

lemma rubaisha_deleting_phase:
  assumes i: "i < length logMessages"
  shows "0 < c \<Longrightarrow>
    ticks typeStatus_rubaisha c logMessages
      \<lparr>messageIndex = i, charIndex = int c, isDeleting = True, statusLog_textContent = t\<rparr> =
    Inr \<lparr>messageIndex = (i + 1) mod length logMessages, charIndex = 0, isDeleting = False,
         statusLog_textContent = []\<rparr> \<and>
    cycles_completed typeStatus_rubaisha c logMessages
      \<lparr>messageIndex = i, charIndex = int c, isDeleting = True, statusLog_textContent = t\<rparr> = 1"
proof (induction c arbitrary: t)
  case 0
  then show ?case by simp
next
  case (Suc c)
  show ?case
  proof (cases "c = 0")
    case True
    show ?thesis
      unfolding True
      by (simp add: rubaisha_delete_last [OF i])
  next
    case False
    then have pos: "0 < c" by simp
    note IH = Suc.IH [OF pos, of "take c (logMessages ! i)"]
    from IH show ?thesis
      by (simp add: rubaisha_delete_more [OF i pos])
  qed
qed

lemma rubaisha_one_cycle:
  assumes i: "i < length logMessages" and ne: "logMessages ! i \<noteq> []"
  shows "ticks typeStatus_rubaisha (2 * length (logMessages ! i)) logMessages
      \<lparr>messageIndex = i, charIndex = 0, isDeleting = False, statusLog_textContent = t\<rparr> =
    Inr \<lparr>messageIndex = (i + 1) mod length logMessages, charIndex = 0, isDeleting = False,
         statusLog_textContent = []\<rparr> \<and>
    cycles_completed typeStatus_rubaisha (2 * length (logMessages ! i)) logMessages
      \<lparr>messageIndex = i, charIndex = 0, isDeleting = False, statusLog_textContent = t\<rparr> = 1"
proof -
  let ?L = "length (logMessages ! i)"
  let ?s = "\<lparr>messageIndex = i, charIndex = 0, isDeleting = False, statusLog_textContent = t\<rparr>"
  let ?m = "\<lparr>messageIndex = i, charIndex = int ?L, isDeleting = True,
         statusLog_textContent = logMessages ! i\<rparr>"
  from ne have pos: "0 < ?L" by simp
  have two: "2 * ?L = ?L + ?L" by simp
  from rubaisha_typing_phase [OF i, of 0 ?L t] pos
  have typing: "ticks typeStatus_rubaisha ?L logMessages ?s = Inr ?m"
    and typing_count: "cycles_completed typeStatus_rubaisha ?L logMessages ?s = 0"
    by simp_all
  from rubaisha_deleting_phase [OF i pos, of "logMessages ! i"]
  have deleting: "ticks typeStatus_rubaisha ?L logMessages ?m =
      Inr \<lparr>messageIndex = (i + 1) mod length logMessages, charIndex = 0, isDeleting = False,
         statusLog_textContent = []\<rparr>"
    and deleting_count: "cycles_completed typeStatus_rubaisha ?L logMessages ?m = 1"
    by simp_all
  have run: "ticks typeStatus_rubaisha (?L + ?L) logMessages ?s =
      Inr \<lparr>messageIndex = (i + 1) mod length logMessages, charIndex = 0, isDeleting = False,
         statusLog_textContent = []\<rparr>"
    by (simp only: ticks_add typing deleting sum.case)
  have count: "cycles_completed typeStatus_rubaisha (?L + ?L) logMessages ?s = 1"
    by (simp add: cycles_completed_add [OF typing] typing_count deleting_count)
  from run count show ?thesis unfolding two by simp
qed

lemma rubaisha_cycles:
  assumes nonempty: "logMessages \<noteq> []" and ne: "\<forall>m \<in> set logMessages. m \<noteq> []"
  shows "ticks typeStatus_rubaisha (cycle_ticks logMessages k) logMessages (initial t) =
      Inr \<lparr>messageIndex = k mod length logMessages, charIndex = 0, isDeleting = False,
           statusLog_textContent = (if k = 0 then t else [])\<rparr> \<and>
    cycles_completed typeStatus_rubaisha (cycle_ticks logMessages k) logMessages (initial t) = k"
proof (induction k)
  case 0
  then show ?case by (simp add: initial_def)
next
  case (Suc k)
  let ?i = "k mod length logMessages"
  let ?L = "length (logMessages ! ?i)"
  let ?m = "\<lparr>messageIndex = ?i, charIndex = 0, isDeleting = False,
           statusLog_textContent = (if k = 0 then t else [])\<rparr>"
  from nonempty have i: "?i < length logMessages" by simp
  then have "logMessages ! ?i \<in> set logMessages" by (rule nth_mem)
  with ne have msg: "logMessages ! ?i \<noteq> []" by blast
  from Suc.IH have run: "ticks typeStatus_rubaisha (cycle_ticks logMessages k) logMessages (initial t) =
      Inr ?m"
    and count: "cycles_completed typeStatus_rubaisha (cycle_ticks logMessages k) logMessages (initial t) = k"
    by simp_all
  have wrap: "(?i + 1) mod length logMessages = Suc k mod length logMessages"
    by (simp add: mod_Suc_eq)
  from rubaisha_one_cycle [OF i msg, of "if k = 0 then t else []"]
  have cyc: "ticks typeStatus_rubaisha (2 * ?L) logMessages ?m =
      Inr \<lparr>messageIndex = Suc k mod length logMessages, charIndex = 0, isDeleting = False,
         statusLog_textContent = []\<rparr>"
    and cyc_count: "cycles_completed typeStatus_rubaisha (2 * ?L) logMessages ?m = 1"
    unfolding wrap by simp_all
  have "ticks typeStatus_rubaisha (cycle_ticks logMessages k + 2 * ?L) logMessages (initial t) =
      Inr \<lparr>messageIndex = Suc k mod length logMessages, charIndex = 0, isDeleting = False,
         statusLog_textContent = []\<rparr>"
    by (simp only: ticks_add run cyc sum.case)
  moreover have "cycles_completed typeStatus_rubaisha (cycle_ticks logMessages k + 2 * ?L)
      logMessages (initial t) = Suc k"
    by (simp add: cycles_completed_add [OF run] count cyc_count)
  ultimately show ?case by simp
qed

lemma rubaisha_step_cursor:
  assumes "messageIndex s < length logMessages"
  shows "\<exists>s' d. typeStatus_rubaisha logMessages s = Inr (s', d) \<and>
    messageIndex s' < length logMessages \<and>
    messageIndex s' =
      (messageIndex s + (if isDeleting s \<and> \<not> isDeleting s' then 1 else 0)) mod length logMessages"
proof -
  from assms have "0 < length logMessages" by linarith
  then have "(messageIndex s + 1) mod length logMessages < length logMessages"
    by (rule mod_less_divisor)
  with assms show ?thesis
    by (auto simp: typeStatus_rubaisha_def Let_def)
qed

lemma rubaisha_cursor:
  "messageIndex s < length logMessages \<Longrightarrow>
   \<exists>s'. ticks typeStatus_rubaisha n logMessages s = Inr s' \<and>
     messageIndex s' =
       (messageIndex s + cycles_completed typeStatus_rubaisha n logMessages s) mod length logMessages"
proof (induction n arbitrary: s)
  case 0
  then show ?case by simp
next
  case (Suc n)
  from rubaisha_step_cursor [OF Suc.prems] obtain s1 d
    where step: "typeStatus_rubaisha logMessages s = Inr (s1, d)"
      and lt: "messageIndex s1 < length logMessages"
      and cur: "messageIndex s1 =
        (messageIndex s + (if isDeleting s \<and> \<not> isDeleting s1 then 1 else 0)) mod length logMessages"
    by blast
  from Suc.IH [OF lt] obtain s' where run: "ticks typeStatus_rubaisha n logMessages s1 = Inr s'"
    and idx: "messageIndex s' =
       (messageIndex s1 + cycles_completed typeStatus_rubaisha n logMessages s1) mod length logMessages"
    by blast
  have "messageIndex s' =
    (messageIndex s + ((if isDeleting s \<and> \<not> isDeleting s1 then 1 else 0)
       + cycles_completed typeStatus_rubaisha n logMessages s1)) mod length logMessages"
    unfolding idx cur by (simp add: mod_add_left_eq add.assoc)
  with step run show ?case by simp
qed

text \<open>
  C2. For a queue of length \<open>n \<ge> 1\<close>, started with \<open>messageIndex = 0\<close>: after any
  number of ticks \<open>messageIndex\<close> is the number of completed type-then-delete cycles
  modulo \<open>n\<close>; and when every message is non-empty, \<open>k\<close> cycles do complete, after
  \<open>cycle_ticks logMessages k\<close> ticks, with \<open>messageIndex = k mod n\<close> and the driver
  back at \<open>charIndex = 0\<close> in typing mode.
\<close>

theorem messageIndex_after_cycles:
  assumes "logMessages \<noteq> []"
  shows "(\<exists>s. ticks typeStatus_rubaisha n logMessages (initial t) = Inr s \<and>
            messageIndex s =
              cycles_completed typeStatus_rubaisha n logMessages (initial t) mod length logMessages) \<and>
         ((\<forall>m \<in> set logMessages. m \<noteq> []) \<longrightarrow>
            (\<exists>s. ticks typeStatus_rubaisha (cycle_ticks logMessages k) logMessages (initial t) = Inr s \<and>
               cycles_completed typeStatus_rubaisha (cycle_ticks logMessages k) logMessages (initial t) = k \<and>
               messageIndex s = k mod length logMessages \<and> charIndex s = 0 \<and> \<not> isDeleting s))"
proof
  from assms have "messageIndex (initial t) < length logMessages"
    by (simp add: initial_def)
  from rubaisha_cursor [OF this, of n]
  show "\<exists>s. ticks typeStatus_rubaisha n logMessages (initial t) = Inr s \<and>
            messageIndex s =
              cycles_completed typeStatus_rubaisha n logMessages (initial t) mod length logMessages"
    by (simp add: initial_def)
next
  show "(\<forall>m \<in> set logMessages. m \<noteq> []) \<longrightarrow>
            (\<exists>s. ticks typeStatus_rubaisha (cycle_ticks logMessages k) logMessages (initial t) = Inr s \<and>
               cycles_completed typeStatus_rubaisha (cycle_ticks logMessages k) logMessages (initial t) = k \<and>
               messageIndex s = k mod length logMessages \<and> charIndex s = 0 \<and> \<not> isDeleting s)"
  proof
    assume ne: "\<forall>m \<in> set logMessages. m \<noteq> []"
    from rubaisha_cycles [OF assms ne, of k t] show "\<exists>s. ticks typeStatus_rubaisha (cycle_ticks logMessages k) logMessages (initial t) = Inr s \<and>
               cycles_completed typeStatus_rubaisha (cycle_ticks logMessages k) logMessages (initial t) = k \<and>
               messageIndex s = k mod length logMessages \<and> charIndex s = 0 \<and> \<not> isDeleting s"
      by simp
  qed
qed

text \<open>Three cycles on the queue \<open>["a", "bb"]\<close> take 8 ticks and leave the cursor at 1.\<close>

theorem messageIndex_after_cycles_witness:
  "[js ''a'', js ''bb''] \<noteq> [] \<and> js ''a'' \<noteq> [] \<and> js ''bb'' \<noteq> [] \<and>
   (\<exists>s. ticks typeStatus_rubaisha 2 [js ''a'', js ''bb''] (initial []) = Inr s \<and>
      messageIndex s =
        cycles_completed typeStatus_rubaisha 2 [js ''a'', js ''bb''] (initial []) mod 2) \<and>
   (\<exists>s. ticks typeStatus_rubaisha (cycle_ticks [js ''a'', js ''bb''] 3) [js ''a'', js ''bb'']
        (initial []) = Inr s \<and>
      cycles_completed typeStatus_rubaisha (cycle_ticks [js ''a'', js ''bb''] 3)
        [js ''a'', js ''bb''] (initial []) = 3 \<and>
      messageIndex s = 1 \<and> charIndex s = 0 \<and> \<not> isDeleting s)"
proof -
  have len: "length [js ''a'', js ''bb''] = 2" by simp
  show ?thesis
    using messageIndex_after_cycles [of "[js ''a'', js ''bb'']" 2 "[]" 3, unfolded len]
    by (simp add: js_def)
qed

text \<open>
  C6, as amended. From a state whose cursor selects a message, a tick of either driver
  returns. A tick taken in the typing mode adds one to \<open>charIndex\<close> and schedules the
  next tick after 100 ms and stays in the typing mode, except the tick on which
  \<open>charIndex\<close> reaches the length of the message: that tick switches to the deleting
  mode, so the tick it schedules is the first deletion tick, and schedules it after
  2000 ms. A tick taken in the deleting mode takes one from \<open>charIndex\<close>, schedules
  the next tick after 50 ms and stays in the deleting mode, except the tick on which
  \<open>charIndex\<close> reaches 0: that tick switches back to the typing mode and schedules the
  next tick after 100 ms.
\<close>

theorem tick_cadence:
  assumes "messageIndex s < length logMessages"
  shows
   "(\<exists>s' delay. typeStatus_rubaisha logMessages s = Inr (s', delay) \<and>
      (if isDeleting s
       then charIndex s' = charIndex s - 1 \<and>
            (isDeleting s' \<longleftrightarrow> charIndex s' \<noteq> 0) \<and>
            delay = (if charIndex s' = 0 then 100 else 50)
       else charIndex s' = charIndex s + 1 \<and>
            (isDeleting s' \<longleftrightarrow> charIndex s' = int (length (logMessages ! messageIndex s))) \<and>
            delay = (if charIndex s' = int (length (logMessages ! messageIndex s))
                     then 2000 else 100))) \<and>
    (\<exists>s' delay. typeStatus_hisham logMessages s = Inr (s', delay) \<and>
      (if isDeleting s
       then charIndex s' = charIndex s - 1 \<and>
            (isDeleting s' \<longleftrightarrow> charIndex s' \<noteq> 0) \<and>
            delay = (if charIndex s' = 0 then 100 else 50)
       else charIndex s' = charIndex s + 1 \<and>
            (isDeleting s' \<longleftrightarrow> charIndex s' = int (length (logMessages ! messageIndex s))) \<and>
            delay = (if charIndex s' = int (length (logMessages ! messageIndex s))
                     then 2000 else 100)))"
  using assms
  by (auto simp: typeStatus_rubaisha_def typeStatus_hisham_def Let_def)

text \<open>
  On the queue \<open>["ab"]\<close>: a deleting tick of Rubaisha's driver that schedules 50 ms
  and stays deleting, the typing tick of Hisham's driver that completes the message,
  switches to deleting and schedules 2000 ms, and the deleting tick of Rubaisha's
  driver that reaches 0, switches to typing and schedules 100 ms.
\<close>

theorem tick_cadence_witness:
  "typeStatus_rubaisha [js ''ab'']
     \<lparr>messageIndex = 0, charIndex = 2, isDeleting = True, statusLog_textContent = js ''ab''\<rparr> =
     Inr (\<lparr>messageIndex = 0, charIndex = 1, isDeleting = True, statusLog_textContent = js ''a''\<rparr>, 50) \<and>
   typeStatus_hisham [js ''ab'']
     \<lparr>messageIndex = 0, charIndex = 1, isDeleting = False, statusLog_textContent = []\<rparr> =
     Inr (\<lparr>messageIndex = 0, charIndex = 2, isDeleting = True, statusLog_textContent = js ''a''\<rparr>, 2000) \<and>
   typeStatus_rubaisha [js ''ab'']
     \<lparr>messageIndex = 0, charIndex = 1, isDeleting = True, statusLog_textContent = js ''a''\<rparr> =
     Inr (\<lparr>messageIndex = 0, charIndex = 0, isDeleting = False, statusLog_textContent = []\<rparr>, 100)"
  using tick_cadence [of
      "\<lparr>messageIndex = 0, charIndex = 2, isDeleting = True, statusLog_textContent = js ''ab''\<rparr>"
      "[js ''ab'']"]
    tick_cadence [of
      "\<lparr>messageIndex = 0, charIndex = 1, isDeleting = False, statusLog_textContent = []\<rparr>"
      "[js ''ab'']"]
    tick_cadence [of
      "\<lparr>messageIndex = 0, charIndex = 1, isDeleting = True, statusLog_textContent = js ''a''\<rparr>"
      "[js ''ab'']"]
  by (simp add: typeStatus_rubaisha_def typeStatus_hisham_def substring0_def js_def)

text \<open>
  C6 as stated fails. On the queue \<open>["a"]\<close> the second tick of Rubaisha's driver is
  taken in the deleting mode, brings \<open>charIndex\<close> to 0 and schedules the next tick after
  100 ms, not 50 ms.
\<close>

theorem tick_cadence_counterexample:
  "ticks typeStatus_rubaisha 1 [js ''a''] (initial []) =
     Inr \<lparr>messageIndex = 0, charIndex = 1, isDeleting = True, statusLog_textContent = js ''a''\<rparr> \<and>
   typeStatus_rubaisha [js ''a'']
     \<lparr>messageIndex = 0, charIndex = 1, isDeleting = True, statusLog_textContent = js ''a''\<rparr> =
     Inr (\<lparr>messageIndex = 0, charIndex = 0, isDeleting = False, statusLog_textContent = []\<rparr>, 100)"
  by (simp add: typeStatus_rubaisha_def initial_def substring0_def js_def)

text \<open>
  C7, as amended. On the queue \<open>["a", "bb"]\<close>, from the initial state: the first tick
  shows \<open>"a"\<close>, sets \<open>isDeleting\<close> and schedules the next tick after 2000 ms; the second
  tick, the only deletion tick, shows the empty text, clears \<open>isDeleting\<close>, moves the
  cursor to the message \<open>"bb"\<close> and schedules the next tick after 100 ms; the third tick
  shows \<open>"b"\<close>.
\<close>

theorem scenario_a_bb:
  "typeStatus_rubaisha [js ''a'', js ''bb''] (initial t) =
     Inr (\<lparr>messageIndex = 0, charIndex = 1, isDeleting = True, statusLog_textContent = js ''a''\<rparr>, 2000) \<and>
   typeStatus_rubaisha [js ''a'', js ''bb'']
     \<lparr>messageIndex = 0, charIndex = 1, isDeleting = True, statusLog_textContent = js ''a''\<rparr> =
     Inr (\<lparr>messageIndex = 1, charIndex = 0, isDeleting = False, statusLog_textContent = []\<rparr>, 100) \<and>
   [js ''a'', js ''bb''] ! 1 = js ''bb'' \<and>
   typeStatus_rubaisha [js ''a'', js ''bb'']
     \<lparr>messageIndex = 1, charIndex = 0, isDeleting = False, statusLog_textContent = []\<rparr> =
     Inr (\<lparr>messageIndex = 1, charIndex = 1, isDeleting = False, statusLog_textContent = js ''b''\<rparr>, 100)"
  by (simp add: typeStatus_rubaisha_def initial_def substring0_def js_def)

text \<open>
  C7 as stated fails: \<open>isDeleting\<close> is set by the first tick, which schedules the second
  after 2000 ms and not 100 ms, and after two ticks \<open>isDeleting\<close> is false.
\<close>

theorem scenario_a_bb_counterexample:
  "typeStatus_rubaisha [js ''a'', js ''bb''] (initial []) =
     Inr (\<lparr>messageIndex = 0, charIndex = 1, isDeleting = True, statusLog_textContent = js ''a''\<rparr>, 2000) \<and>
   ticks typeStatus_rubaisha 2 [js ''a'', js ''bb''] (initial []) =
     Inr \<lparr>messageIndex = 1, charIndex = 0, isDeleting = False, statusLog_textContent = []\<rparr>"
  by (simp add: typeStatus_rubaisha_def initial_def substring0_def js_def numeral_2_eq_2)

lemma take_is_all: "0 \<le> c \<Longrightarrow> take (nat c) m = m \<longleftrightarrow> int (length m) \<le> c"
  by (simp add: take_all_iff) linarith

text \<open>
  C9, as amended. The two drivers are not the same function. From a state whose cursor
  selects a message and whose \<open>charIndex\<close> is not negative, both ticks return. Every
  tick of Hisham's driver shows the prefix of length \<open>charIndex\<close> taken before the
  increment or decrement, so it shows the full message exactly when that \<open>charIndex\<close>
  is at least the length of the message; between two ticks of a run (\<open>driver_ok\<close>,
  which holds initially and after every tick when the messages are non-empty) that is
  exactly the deletion tick taken with \<open>charIndex\<close> equal to the length of the message,
  the first deletion tick. Both drivers switch to deleting on the same typing tick; on
  that tick both schedule the next tick after 2000 ms, Hisham's driver shows a
  prefix one shorter than the message while Rubaisha's shows the full message, and the
  tick of Hisham's driver that follows shows the full message.
\<close>

theorem variants_differ:
  assumes i: "messageIndex s < length logMessages" and c: "0 \<le> charIndex s"
  shows "typeStatus_hisham \<noteq> typeStatus_rubaisha \<and>
    (\<exists>h r dh dr.
       typeStatus_hisham logMessages s = Inr (h, dh) \<and>
       typeStatus_rubaisha logMessages s = Inr (r, dr) \<and>
       statusLog_textContent h = substring0 (logMessages ! messageIndex s) (charIndex s) \<and>
       (statusLog_textContent h = logMessages ! messageIndex s \<longleftrightarrow>
          int (length (logMessages ! messageIndex s)) \<le> charIndex s) \<and>
       (driver_ok logMessages s \<longrightarrow>
          (statusLog_textContent h = logMessages ! messageIndex s \<longleftrightarrow>
             isDeleting s \<and> charIndex s = int (length (logMessages ! messageIndex s)))) \<and>
       (if isDeleting s
        then charIndex h = charIndex s - 1
        else charIndex h = charIndex s + 1 \<and>
             (isDeleting h \<longleftrightarrow> isDeleting r) \<and>
             (isDeleting h \<longrightarrow>
                dh = 2000 \<and> dr = 2000 \<and>
                charIndex h = int (length (logMessages ! messageIndex s)) \<and>
                int (length (statusLog_textContent h)) =
                  int (length (logMessages ! messageIndex s)) - 1 \<and>
                statusLog_textContent r = logMessages ! messageIndex s \<and>
                (\<exists>h2 d2. typeStatus_hisham logMessages h = Inr (h2, d2) \<and>
                   statusLog_textContent h2 = logMessages ! messageIndex s \<and>
                   charIndex h2 = charIndex h - 1))))"
proof
  show "typeStatus_hisham \<noteq> typeStatus_rubaisha"
  proof
    assume eq: "typeStatus_hisham = typeStatus_rubaisha"
    have "typeStatus_hisham [js ''ab''] (initial []) \<noteq> typeStatus_rubaisha [js ''ab''] (initial [])"
      by (simp add: typeStatus_hisham_def typeStatus_rubaisha_def initial_def substring0_def js_def)
    with eq show False by simp
  qed
next
  let ?m = "logMessages ! messageIndex s"
  from i have pos: "0 < length logMessages" by linarith
  then have wrap: "(messageIndex s + 1) mod length logMessages < length logMessages"
    by (rule mod_less_divisor)
  note all = take_is_all [OF c, of ?m]
  show "\<exists>h r dh dr.
       typeStatus_hisham logMessages s = Inr (h, dh) \<and>
       typeStatus_rubaisha logMessages s = Inr (r, dr) \<and>
       statusLog_textContent h = substring0 ?m (charIndex s) \<and>
       (statusLog_textContent h = ?m \<longleftrightarrow> int (length ?m) \<le> charIndex s) \<and>
       (driver_ok logMessages s \<longrightarrow>
          (statusLog_textContent h = ?m \<longleftrightarrow> isDeleting s \<and> charIndex s = int (length ?m))) \<and>
       (if isDeleting s
        then charIndex h = charIndex s - 1
        else charIndex h = charIndex s + 1 \<and>
             (isDeleting h \<longleftrightarrow> isDeleting r) \<and>
             (isDeleting h \<longrightarrow>
                dh = 2000 \<and> dr = 2000 \<and>
                charIndex h = int (length ?m) \<and>
                int (length (statusLog_textContent h)) = int (length ?m) - 1 \<and>
                statusLog_textContent r = ?m \<and>
                (\<exists>h2 d2. typeStatus_hisham logMessages h = Inr (h2, d2) \<and>
                   statusLog_textContent h2 = ?m \<and>
                   charIndex h2 = charIndex h - 1)))"
  proof (cases "isDeleting s")
    case True
    with i c wrap all show ?thesis
      by (auto simp: typeStatus_hisham_def typeStatus_rubaisha_def substring0_def Let_def
          driver_ok_def)
  next
    case False
    with i c all show ?thesis
      by (auto simp: typeStatus_hisham_def typeStatus_rubaisha_def substring0_def Let_def
          driver_ok_def nat_add_distrib)
  qed
qed

text \<open>
  On the queue \<open>["ab"]\<close>: the tick that switches to deleting shows \<open>"a"\<close> in Hisham's
  driver and \<open>"ab"\<close> in Rubaisha's; the first deletion tick of Hisham's driver shows
  \<open>"ab"\<close> and the second shows \<open>"a"\<close>.
\<close>

theorem variants_differ_witness:
  "typeStatus_hisham \<noteq> typeStatus_rubaisha \<and>
   typeStatus_hisham [js ''ab'']
     \<lparr>messageIndex = 0, charIndex = 1, isDeleting = False, statusLog_textContent = []\<rparr> =
     Inr (\<lparr>messageIndex = 0, charIndex = 2, isDeleting = True, statusLog_textContent = js ''a''\<rparr>, 2000) \<and>
   typeStatus_rubaisha [js ''ab'']
     \<lparr>messageIndex = 0, charIndex = 1, isDeleting = False, statusLog_textContent = []\<rparr> =
     Inr (\<lparr>messageIndex = 0, charIndex = 2, isDeleting = True, statusLog_textContent = js ''ab''\<rparr>, 2000) \<and>
   driver_ok [js ''ab'']
     \<lparr>messageIndex = 0, charIndex = 2, isDeleting = True, statusLog_textContent = js ''a''\<rparr> \<and>
   typeStatus_hisham [js ''ab'']
     \<lparr>messageIndex = 0, charIndex = 2, isDeleting = True, statusLog_textContent = js ''a''\<rparr> =
     Inr (\<lparr>messageIndex = 0, charIndex = 1, isDeleting = True, statusLog_textContent = js ''ab''\<rparr>, 50) \<and>
   driver_ok [js ''ab'']
     \<lparr>messageIndex = 0, charIndex = 1, isDeleting = True, statusLog_textContent = js ''ab''\<rparr> \<and>
   typeStatus_hisham [js ''ab'']
     \<lparr>messageIndex = 0, charIndex = 1, isDeleting = True, statusLog_textContent = js ''ab''\<rparr> =
     Inr (\<lparr>messageIndex = 0, charIndex = 0, isDeleting = False, statusLog_textContent = js ''a''\<rparr>, 100)"
  using variants_differ [of
      "\<lparr>messageIndex = 0, charIndex = 1, isDeleting = False, statusLog_textContent = []\<rparr>"
      "[js ''ab'']"]
    variants_differ [of
      "\<lparr>messageIndex = 0, charIndex = 2, isDeleting = True, statusLog_textContent = js ''a''\<rparr>"
      "[js ''ab'']"]
    variants_differ [of
      "\<lparr>messageIndex = 0, charIndex = 1, isDeleting = True, statusLog_textContent = js ''ab''\<rparr>"
      "[js ''ab'']"]
  by (simp add: typeStatus_hisham_def typeStatus_rubaisha_def substring0_def js_def driver_ok_def)

text \<open>
  C9 as stated fails: on the queue \<open>["ab"]\<close> the third tick of Hisham's driver, its
  first deletion tick, shows the full message \<open>"ab"\<close>.
\<close>

theorem variants_differ_counterexample:
  "ticks typeStatus_hisham 3 [js ''ab''] (initial []) =
     Inr \<lparr>messageIndex = 0, charIndex = 1, isDeleting = True, statusLog_textContent = js ''ab''\<rparr> \<and>
   [js ''ab''] ! 0 = js ''ab''"
  by (simp add: typeStatus_hisham_def initial_def substring0_def js_def numeral_3_eq_3)

section \<open>Properties of the scene player\<close>

lemma display_values_differ: "js ''none'' \<noteq> js ''block''"
  by (simp add: js_def)

lemma chain_nonempty: "chain scs i p \<Longrightarrow> p \<noteq> []"
  by (induction rule: chain.induct) simp_all

text \<open>
  A scene starts at most one chain, which visits no scene twice; so a chain is no longer
  than the array, and as long as the array exactly when every scene is on it.
\<close>

lemma chain_unique: "chain scs i p \<Longrightarrow> chain scs i q \<Longrightarrow> p = q"
proof (induction arbitrary: q rule: chain.induct)
  case (terminal i)
  from terminal.prems terminal.hyps show ?case
    by (cases rule: chain.cases) simp_all
next
  case (link i j p)
  from link.prems link.hyps(2) link.IH show ?case
    by (cases rule: chain.cases) simp_all
qed

lemma chain_in_range: "chain scs i p \<Longrightarrow> j \<in> set p \<Longrightarrow> j < length scs"
  by (induction rule: chain.induct) auto

lemma chain_from_member:
  "chain scs i p \<Longrightarrow> x \<in> set p \<Longrightarrow> \<exists>q. chain scs x q \<and> length q \<le> length p"
proof (induction rule: chain.induct)
  case (terminal i)
  then have "x = i" by simp
  with terminal.hyps show ?case by (auto intro: chain.terminal)
next
  case (link i j p)
  show ?case
  proof (cases "x = i")
    case True
    from chain.link [OF link.hyps] True show ?thesis by auto
  next
    case False
    with link.prems have "x \<in> set p" by simp
    from link.IH [OF this] show ?thesis by auto
  qed
qed

lemma chain_distinct: "chain scs i p \<Longrightarrow> distinct p"
proof (induction rule: chain.induct)
  case (terminal i)
  show ?case by simp
next
  case (link i j p)
  have "i \<notin> set p"
  proof
    assume "i \<in> set p"
    from chain_from_member [OF link.hyps(3) this] obtain q
      where q: "chain scs i q" and len: "length q \<le> length p" by blast
    from chain_unique [OF q chain.link [OF link.hyps]] len show False by simp
  qed
  with link.IH show ?case by simp
qed

lemma chain_length_le:
  assumes "chain scs i p"
  shows "length p \<le> length scs"
proof -
  from chain_in_range [OF assms] have "set p \<subseteq> {..<length scs}" by auto
  then have "card (set p) \<le> card {..<length scs}" by (intro card_mono) simp_all
  with chain_distinct [OF assms] show ?thesis by (simp add: distinct_card)
qed

lemma chain_length_eq:
  assumes "chain scs i p"
  shows "length p = length scs \<longleftrightarrow> set p = {..<length scs}"
proof -
  from chain_in_range [OF assms] have sub: "set p \<subseteq> {..<length scs}" by auto
  from chain_distinct [OF assms] have card: "card (set p) = length p" by (rule distinct_card)
  show ?thesis
  proof
    assume "length p = length scs"
    with card have "card (set p) = card {..<length scs}" by simp
    with sub show "set p = {..<length scs}" by (intro card_subset_eq) simp_all
  next
    assume "set p = {..<length scs}"
    with card show "length p = length scs" by simp
  qed
qed

lemma showScene_link:
  assumes "index < length scs" and "scene_next (scs ! index) = Some j"
    and "page (scene_audio (scs ! index)) \<noteq> None"
  shows "\<exists>s'. showScene scs page index s = Inr s' \<and>
    currentScene s' = currentScene s \<and>
    sceneImage_src s' = scene_image (scs ! index) \<and>
    dialogueBox_textContent s' = scene_dialogue (scs ! index) \<and>
    nextBtn_display s' = js ''block'' \<and>
    nextBtn_onclick s' = Some j \<and>
    played s' = played s @ [scene_audio (scs ! index)]"
  using assms by (auto simp: showScene_def Let_def split: option.splits)

lemma showScene_terminal:
  assumes "index < length scs" and "scene_next (scs ! index) = None"
    and "page (scene_audio (scs ! index)) \<noteq> None"
  shows "\<exists>s'. showScene scs page index s = Inr s' \<and>
    currentScene s' = currentScene s \<and>
    sceneImage_src s' = scene_image (scs ! index) \<and>
    dialogueBox_textContent s' = scene_dialogue (scs ! index) @ epilogue \<and>
    nextBtn_display s' = js ''none'' \<and>
    nextBtn_onclick s' = nextBtn_onclick s \<and>
    played s' = played s @ [scene_audio (scs ! index)]"
  using assms by (auto simp: showScene_def Let_def split: option.splits)

lemma chain_play:
  assumes "chain scs i p" and "sounds_present scs page p"
  shows "currentScene s = i \<Longrightarrow> k < length p \<Longrightarrow>
    \<exists>s1 s'. showScene scs page i s = Inr s1 \<and> continues scs page k s1 = Inr s' \<and>
      currentScene s' = p ! k \<and>
      sceneImage_src s' = scene_image (scs ! (p ! k)) \<and>
      (scene_next (scs ! (p ! k)) = None \<longleftrightarrow> k = length p - 1) \<and>
      (nextBtn_display s' = js ''none'' \<longleftrightarrow> k = length p - 1) \<and>
      (nextBtn_display s' = js ''block'' \<longleftrightarrow> k \<noteq> length p - 1)"
  using assms
proof (induction arbitrary: s k rule: chain.induct)
  case (terminal i)
  from terminal.prems have k: "k = 0" by simp
  from terminal.prems have snd: "page (scene_audio (scs ! i)) \<noteq> None"
    by (simp add: sounds_present_def)
  from showScene_terminal [where page = page and s = s, OF terminal.hyps snd]
    terminal.prems(1) terminal.hyps(2)
  show ?case unfolding k by (auto simp: display_values_differ)
next
  case (link i j p)
  from link.prems have snd: "page (scene_audio (scs ! i)) \<noteq> None"
    and rest: "sounds_present scs page p"
    by (simp_all add: sounds_present_def)
  from chain_nonempty [OF link.hyps(3)] have ne: "p \<noteq> []" .
  from showScene_link [where page = page and s = s, OF link.hyps(1,2) snd] obtain s1
    where show1: "showScene scs page i s = Inr s1"
      and cur1: "currentScene s1 = currentScene s"
      and img1: "sceneImage_src s1 = scene_image (scs ! i)"
      and disp1: "nextBtn_display s1 = js ''block''"
      and click1: "nextBtn_onclick s1 = Some j"
    by blast
  show ?case
  proof (cases k)
    case 0
    with show1 cur1 img1 disp1 link.prems(1) link.hyps(2) ne show ?thesis
      by (auto simp: display_values_differ [symmetric])
  next
    case (Suc k')
    with link.prems have k': "k' < length p" by simp
    have cur: "currentScene (s1\<lparr>currentScene := j\<rparr>) = j" by simp
    from link.IH [OF cur k' rest] obtain s2 s'
      where show2: "showScene scs page j (s1\<lparr>currentScene := j\<rparr>) = Inr s2"
        and run: "continues scs page k' s2 = Inr s'"
        and props: "currentScene s' = p ! k'"
          "sceneImage_src s' = scene_image (scs ! (p ! k'))"
          "scene_next (scs ! (p ! k')) = None \<longleftrightarrow> k' = length p - 1"
          "nextBtn_display s' = js ''none'' \<longleftrightarrow> k' = length p - 1"
          "nextBtn_display s' = js ''block'' \<longleftrightarrow> k' \<noteq> length p - 1"
      by (elim exE conjE)
    have click: "nextBtn_click scs page s1 = Inr s2"
      by (simp add: nextBtn_click_def click1 show2)
    have last: "Suc k' = length (i # p) - 1 \<longleftrightarrow> k' = length p - 1"
      using ne by (cases p) auto
    from show1 click run props last show ?thesis
      unfolding Suc by simp
  qed
qed

text \<open>
  C3. Let \<open>p\<close> be the chain of a well-formed scene array from its first scene, on a
  page that has the sound elements the scenes name, and let the player start with
  \<open>currentScene = 0\<close>. After the start signal and \<open>k < length p\<close> activations of the
  continue control the player shows scene \<open>p ! k\<close>. That scene is the terminal one
  exactly when \<open>k = length p - 1\<close>, the control is hidden exactly then and shown
  otherwise. The length of the chain is \<open>length p\<close>, the number of scenes on it; it
  is the length of the array when every scene is on the chain, as in the script.
\<close>

theorem continue_reaches_terminal:
  assumes "chain scs 0 p" and "sounds_present scs page p" and "currentScene s0 = 0"
    and "k < length p"
  shows "\<exists>s. play_from_start scs page k s0 = Inr s \<and>
      currentScene s = p ! k \<and>
      sceneImage_src s = scene_image (scs ! (p ! k)) \<and>
      (scene_next (scs ! (p ! k)) = None \<longleftrightarrow> k = length p - 1) \<and>
      (nextBtn_display s = js ''none'' \<longleftrightarrow> k = length p - 1) \<and>
      (nextBtn_display s = js ''block'' \<longleftrightarrow> k \<noteq> length p - 1)"
proof -
  let ?s = "s0\<lparr>openingScreen_display := js ''none'', gameContainer_display := js ''block''\<rparr>"
  from assms(3) have cur: "currentScene ?s = 0" by simp
  from chain_play [OF assms(1,2) cur assms(4)] assms(3)
  show ?thesis
    by (auto simp: play_from_start_def start_click_def Let_def)
qed

lemma scenes_chain: "chain scenes 0 [0, 1, 2]"
proof -
  have c2: "chain scenes 2 [2]"
    by (rule chain.terminal) (simp_all add: scenes_def)
  have c1: "chain scenes 1 [1, 2]"
    by (rule chain.link [OF _ _ c2]) (simp_all add: scenes_def)
  show ?thesis
    by (rule chain.link [OF _ _ c1]) (simp_all add: scenes_def)
qed

text \<open>
  The three scenes of the script: two activations reach the last scene with the control
  hidden, and before any activation the first scene is shown with the control visible.
\<close>

theorem continue_reaches_terminal_witness:
  "chain scenes 0 [0, 1, 2] \<and> sounds_present scenes (\<lambda>id. Some Fulfilled) [0, 1, 2] \<and>
   currentScene player_loaded = 0 \<and> (2::nat) < length [0::nat, 1, 2] \<and>
   (\<exists>s. play_from_start scenes (\<lambda>id. Some Fulfilled) 2 player_loaded = Inr s \<and>
      currentScene s = 2 \<and> sceneImage_src s = js ''images/window.jpg'' \<and>
      scene_next (scenes ! 2) = None \<and> nextBtn_display s = js ''none'') \<and>
   (\<exists>s. play_from_start scenes (\<lambda>id. Some Fulfilled) 0 player_loaded = Inr s \<and>
      currentScene s = 0 \<and> sceneImage_src s = js ''images/bedroom.jpg'' \<and>
      scene_next (scenes ! 0) \<noteq> None \<and> nextBtn_display s = js ''block'')"
proof -
  have snd: "sounds_present scenes (\<lambda>id. Some Fulfilled) [0, 1, 2]"
    by (simp add: sounds_present_def)
  have cur: "currentScene player_loaded = 0"
    by (simp add: player_loaded_def)
  have last: "(2::nat) < length [0::nat, 1, 2]" and first: "(0::nat) < length [0::nat, 1, 2]"
    by simp_all
  have sc: "scene_image (scenes ! 2) = js ''images/window.jpg''"
    "scene_next (scenes ! 2) = None"
    "scene_image (scenes ! 0) = js ''images/bedroom.jpg''"
    "scene_next (scenes ! 0) = Some 1"
    by (simp_all add: scenes_def)
  from continue_reaches_terminal [OF scenes_chain snd cur last]
  have "\<exists>s. play_from_start scenes (\<lambda>id. Some Fulfilled) 2 player_loaded = Inr s \<and>
      currentScene s = 2 \<and> sceneImage_src s = js ''images/window.jpg'' \<and>
      scene_next (scenes ! 2) = None \<and> nextBtn_display s = js ''none''"
    by (auto simp: sc)
  moreover from continue_reaches_terminal [OF scenes_chain snd cur first]
  have "\<exists>s. play_from_start scenes (\<lambda>id. Some Fulfilled) 0 player_loaded = Inr s \<and>
      currentScene s = 0 \<and> sceneImage_src s = js ''images/bedroom.jpg'' \<and>
      scene_next (scenes ! 0) \<noteq> None \<and> nextBtn_display s = js ''block''"
    by (auto simp: sc)
  ultimately show ?thesis
    using scenes_chain snd cur by simp
qed

text \<open>
  C4. For an index inside the array whose sound element the page has, two calls of
  \<open>showScene\<close> in a row leave the same image and the same dialogue text after the
  second call as after the first, and each call plays the sound of the scene once more.
\<close>

theorem showScene_idempotent:
  assumes "i < length scs" and "page (scene_audio (scs ! i)) \<noteq> None"
  shows "\<exists>s1 s2. showScene scs page i s = Inr s1 \<and> showScene scs page i s1 = Inr s2 \<and>
      sceneImage_src s2 = sceneImage_src s1 \<and>
      dialogueBox_textContent s2 = dialogueBox_textContent s1 \<and>
      played s1 = played s @ [scene_audio (scs ! i)] \<and>
      played s2 = played s1 @ [scene_audio (scs ! i)]"
  using assms by (auto simp: showScene_def Let_def split: option.splits)

text \<open>
  The last scene of the script, whose dialogue gets the closing line on each call.
\<close>

theorem showScene_idempotent_witness:
  "(2::nat) < length scenes \<and> (\<lambda>id. Some Fulfilled) (scene_audio (scenes ! 2)) \<noteq> None \<and>
   (\<exists>s1 s2. showScene scenes (\<lambda>id. Some Fulfilled) 2 player_loaded = Inr s1 \<and>
      showScene scenes (\<lambda>id. Some Fulfilled) 2 s1 = Inr s2 \<and>
      sceneImage_src s2 = sceneImage_src s1 \<and>
      dialogueBox_textContent s2 = dialogueBox_textContent s1 \<and>
      played s1 = [js ''scream''] \<and> played s2 = [js ''scream'', js ''scream''])"
proof -
  have i: "2 < length scenes" by (simp add: scenes_def)
  have snd: "(\<lambda>id. Some Fulfilled) (scene_audio (scenes ! 2)) \<noteq> None" by simp
  from showScene_idempotent [where page = "\<lambda>id. Some Fulfilled" and s = player_loaded, OF i snd]
  obtain s1 s2 where "showScene scenes (\<lambda>id. Some Fulfilled) 2 player_loaded = Inr s1"
    and "showScene scenes (\<lambda>id. Some Fulfilled) 2 s1 = Inr s2"
    and "sceneImage_src s2 = sceneImage_src s1"
    and "dialogueBox_textContent s2 = dialogueBox_textContent s1"
    and "played s1 = played player_loaded @ [scene_audio (scenes ! 2)]"
    and "played s2 = played s1 @ [scene_audio (scenes ! 2)]"
    by (elim exE conjE)
  moreover have "played player_loaded = []" and "scene_audio (scenes ! 2) = js ''scream''"
    by (simp_all add: player_loaded_def scenes_def)
  ultimately show ?thesis using i by auto
qed

text \<open>
  C5. Called with the index of a scene whose \<open>next\<close> is absent (and whose sound element
  the page has), \<open>showScene\<close> hides the continue control and leaves as dialogue the
  dialogue string of the scene followed by the closing line.
\<close>

theorem showScene_terminal_epilogue:
  assumes "i < length scs" and "scene_next (scs ! i) = None"
    and "page (scene_audio (scs ! i)) \<noteq> None"
  shows "\<exists>s'. showScene scs page i s = Inr s' \<and>
      nextBtn_display s' = js ''none'' \<and>
      dialogueBox_textContent s' = scene_dialogue (scs ! i) @ epilogue"
  using showScene_terminal [where page = page and s = s, OF assms] by blast

text \<open>
  The last scene of the script.
\<close>

theorem showScene_terminal_epilogue_witness:
  "(2::nat) < length scenes \<and> scene_next (scenes ! 2) = None \<and>
   (\<lambda>id. Some Fulfilled) (scene_audio (scenes ! 2)) \<noteq> None \<and>
   (\<exists>s'. showScene scenes (\<lambda>id. Some Fulfilled) 2 player_loaded = Inr s' \<and>
      nextBtn_display s' = js ''none'' \<and>
      dialogueBox_textContent s' =
        js ''You see the note. Blood trails on the glass.'' @ epilogue)"
proof -
  have i: "2 < length scenes" and last: "scene_next (scenes ! 2) = None"
    and dlg: "scene_dialogue (scenes ! 2) = js ''You see the note. Blood trails on the glass.''"
    by (simp_all add: scenes_def)
  have snd: "(\<lambda>id. Some Fulfilled) (scene_audio (scenes ! 2)) \<noteq> None" by simp
  from showScene_terminal_epilogue
    [where page = "\<lambda>id. Some Fulfilled" and s = player_loaded, OF i last snd]
  show ?thesis using i last unfolding dlg by simp
qed

lemma showScene_cursor: "currentScene (state_after (showScene scs page i s)) = currentScene s"
  by (auto simp: showScene_def Let_def split: option.splits)

text \<open>
  C10. The start handler leaves \<open>currentScene\<close> as it was, whether \<open>showScene\<close> returns
  or throws; and when the cursor selects a scene whose sound element the page has, the
  handler shows the image of that scene, a dialogue that begins with its dialogue
  string, and plays its sound.
\<close>

theorem start_click_keeps_cursor:
  "currentScene (state_after (start_click scs page s)) = currentScene s \<and>
   (currentScene s < length scs \<and> page (scene_audio (scs ! currentScene s)) \<noteq> None \<longrightarrow>
      (\<exists>s'. start_click scs page s = Inr s' \<and>
         sceneImage_src s' = scene_image (scs ! currentScene s) \<and>
         take (length (scene_dialogue (scs ! currentScene s))) (dialogueBox_textContent s') =
           scene_dialogue (scs ! currentScene s) \<and>
         played s' = played s @ [scene_audio (scs ! currentScene s)]))"
proof
  show "currentScene (state_after (start_click scs page s)) = currentScene s"
    by (simp add: start_click_def Let_def showScene_cursor)
next
  show "currentScene s < length scs \<and> page (scene_audio (scs ! currentScene s)) \<noteq> None \<longrightarrow>
      (\<exists>s'. start_click scs page s = Inr s' \<and>
         sceneImage_src s' = scene_image (scs ! currentScene s) \<and>
         take (length (scene_dialogue (scs ! currentScene s))) (dialogueBox_textContent s') =
           scene_dialogue (scs ! currentScene s) \<and>
         played s' = played s @ [scene_audio (scs ! currentScene s)])"
    by (auto simp: start_click_def showScene_def Let_def split: option.splits)
qed

text \<open>
  After the start signal and one activation of the continue control the cursor is 1; a
  second start signal keeps it at 1 and shows the second scene again, not the first.
\<close>

theorem start_click_keeps_cursor_witness:
  "currentScene (state_after (play_from_start scenes (\<lambda>id. Some Fulfilled) 1 player_loaded)) = 1 \<and>
   currentScene (state_after (start_click scenes (\<lambda>id. Some Fulfilled)
     (state_after (play_from_start scenes (\<lambda>id. Some Fulfilled) 1 player_loaded)))) = 1 \<and>
   (\<exists>s'. start_click scenes (\<lambda>id. Some Fulfilled)
       (state_after (play_from_start scenes (\<lambda>id. Some Fulfilled) 1 player_loaded)) = Inr s' \<and>
     sceneImage_src s' = js ''images/bathroom.jpg'' \<and>
     played s' = [js ''whisper'', js ''door'', js ''door''])"
proof -
  let ?s = "state_after (play_from_start scenes (\<lambda>id. Some Fulfilled) 1 player_loaded)"
  have adv: "play_from_start scenes (\<lambda>id. Some Fulfilled) 1 player_loaded =
    Inr \<lparr>currentScene = 1, sceneImage_src = js ''images/bathroom.jpg'',
      dialogueBox_textContent = js ''The bathtub is tinged with red. The mirror cracks silently.'',
      nextBtn_display = js ''block'', nextBtn_onclick = Some 2,
      openingScreen_display = js ''none'', gameContainer_display = js ''block'',
      played = [js ''whisper'', js ''door''], unhandled_rejections = [], console_log = []\<rparr>"
    by (simp add: play_from_start_def start_click_def nextBtn_click_def showScene_def
        player_loaded_def scenes_def Let_def)
  have cur: "currentScene ?s = 1" and pl: "played ?s = [js ''whisper'', js ''door'']"
    unfolding adv by simp_all
  have sc: "scene_image (scenes ! 1) = js ''images/bathroom.jpg''"
    "scene_audio (scenes ! 1) = js ''door''" "1 < length scenes"
    by (simp_all add: scenes_def)
  from start_click_keeps_cursor [of scenes "\<lambda>id. Some Fulfilled" ?s]
  show ?thesis unfolding cur pl using sc by auto
qed

text \<open>
  C8, at a playback failure. When the promise of \<open>play()\<close> is rejected in
  \<open>showScene(0)\<close>, the state is the one of a successful playback except that the
  rejection is left without a handler, and the script writes nothing to the console.
  The play button of Hisham's page does catch the rejection and logs it.
\<close>

theorem showScene_rejection_unhandled:
  "showScene scenes (\<lambda>id. Some (Rejected (js ''NotSupportedError''))) 0 player_loaded =
     Inr (player_loaded
       \<lparr>sceneImage_src := js ''images/bedroom.jpg'',
        dialogueBox_textContent := js ''The room reeks of despair. A razor sits on the dresser.'',
        nextBtn_display := js ''block'', nextBtn_onclick := Some 1,
        played := [js ''whisper''],
        unhandled_rejections := [js ''NotSupportedError''],
        console_log := []\<rparr>) \<and>
   showScene scenes (\<lambda>id. Some Fulfilled) 0 player_loaded =
     Inr (player_loaded
       \<lparr>sceneImage_src := js ''images/bedroom.jpg'',
        dialogueBox_textContent := js ''The room reeks of despair. A razor sits on the dresser.'',
        nextBtn_display := js ''block'', nextBtn_onclick := Some 1,
        played := [js ''whisper''],
        unhandled_rejections := [],
        console_log := []\<rparr>) \<and>
   playBtn_click True (Rejected (js ''NotSupportedError''))
     \<lparr>playBtn_textContent = js ''Play Song'', mp_console_log = [], mp_unhandled_rejections = []\<rparr> =
     \<lparr>playBtn_textContent = js ''Pause Song'',
      mp_console_log = [js ''Audio play failed: '' @ js ''NotSupportedError''],
      mp_unhandled_rejections = []\<rparr>"
  by (simp add: showScene_def playBtn_click_def player_loaded_def scenes_def Let_def)

end
